theory Spec2Isabelle
  imports Main
begin

section \<open>MaxConverter: the line parser and the table formatter\<close>

text \<open>
  A shallow embedding of the two pure functions of \<^verbatim>\<open>maxconverter.py\<close>:
  \<^verbatim>\<open>parse_line_to_fields\<close> and \<^verbatim>\<open>format_table\<close>.

  A Python \<^verbatim>\<open>str\<close> is modelled as a \<open>string\<close>, one \<open>char\<close> per code point; the
  \<open>char\<close> type has 256 values, so the model covers the lines whose code points are
  below 256. A Python \<^verbatim>\<open>dict\<close> with string keys is a map \<open>string \<rightharpoonup> string\<close>, the empty
  dict \<^verbatim>\<open>{}\<close> is \<open>Map.empty\<close>.
\<close>

subsection \<open>Character classes\<close>

text \<open>
  \<^verbatim>\<open>str.strip()\<close> with no argument and the class \<^verbatim>\<open>\s\<close> of a \<^verbatim>\<open>str\<close> pattern both test
  \<^verbatim>\<open>Py_UNICODE_ISSPACE\<close>. Below 256 it holds for TAB, LF, VT, FF, CR, the separators
  0x1C to 0x1F, SPACE, NEL (0x85) and NBSP (0xA0).
\<close>

definition isspace :: "char \<Rightarrow> bool" where
  "isspace c \<longleftrightarrow>
     c \<in> {CHR 0x09, CHR 0x0A, CHR 0x0B, CHR 0x0C, CHR 0x0D,
          CHR 0x1C, CHR 0x1D, CHR 0x1E, CHR 0x1F, CHR 0x20, CHR 0x85, CHR 0xA0}"

text \<open>The class \<^verbatim>\<open>\d\<close>: the decimal digits; below 256 these are \<^verbatim>\<open>0\<close> to \<^verbatim>\<open>9\<close>.\<close>

definition isdigit :: "char \<Rightarrow> bool" where
  "isdigit c \<longleftrightarrow> c \<in> set ''0123456789''"

text \<open>The classes \<^verbatim>\<open>[+-]\<close> and \<^verbatim>\<open>[eE]\<close> of \<^verbatim>\<open>FLOAT_TOKEN\<close>.\<close>

definition is_sign :: "char \<Rightarrow> bool" where
  "is_sign c \<longleftrightarrow> c = CHR ''+'' \<or> c = CHR ''-''"

definition is_exp :: "char \<Rightarrow> bool" where
  "is_exp c \<longleftrightarrow> c = CHR ''e'' \<or> c = CHR ''E''"

subsection \<open>String operations of the Python library\<close>

text \<open>\<^verbatim>\<open>s.strip()\<close>: leading and trailing whitespace removed.\<close>

definition lstrip :: "string \<Rightarrow> string" where
  "lstrip s = dropWhile isspace s"

definition rstrip :: "string \<Rightarrow> string" where
  "rstrip s = rev (dropWhile isspace (rev s))"

definition strip :: "string \<Rightarrow> string" where
  "strip s = rstrip (lstrip s)"

text \<open>\<^verbatim>\<open>s.startswith(p)\<close>.\<close>

definition startswith :: "string \<Rightarrow> string \<Rightarrow> bool" where
  "startswith s p \<longleftrightarrow> take (length p) s = p"

text \<open>
  \<^verbatim>\<open>s.split(d)\<close> for a one-character separator: the text before the first separator,
  then the split of what follows it; a string with no separator is its only part.
\<close>

function str_split :: "char \<Rightarrow> string \<Rightarrow> string list" where
  "str_split d s =
     (let tok = takeWhile (\<lambda>c. c \<noteq> d) s;
          rest = dropWhile (\<lambda>c. c \<noteq> d) s
      in if rest = [] then [tok] else tok # str_split d (tl rest))"
  by pat_completeness auto
termination
proof (relation "measure (\<lambda>(d, s). length s)")
  show "wf (measure (\<lambda>(d, s). length s))"
    by simp
next
  fix d :: char and s tok rest :: string
  assume "rest = dropWhile (\<lambda>c. c \<noteq> d) s" and "rest \<noteq> []"
  then have "length (tl rest) < length rest" and "length rest \<le> length s"
    by (simp_all add: length_dropWhile_le)
  then show "((d, tl rest), (d, s)) \<in> measure (\<lambda>(d, s). length s)"
    by simp
qed

text \<open>
  \<^verbatim>\<open>re.split(r"\s+", s)\<close>: the scan finds the next whitespace character, the match
  takes the whole run (\<^verbatim>\<open>+\<close> is greedy), the text before the match is a part, and the
  scan goes on after the run. What is left when no match is found is the last part.
\<close>

function re_split_ws :: "string \<Rightarrow> string list" where
  "re_split_ws s =
     (let tok = takeWhile (\<lambda>c. \<not> isspace c) s;
          rest = dropWhile (\<lambda>c. \<not> isspace c) s
      in if rest = [] then [tok] else tok # re_split_ws (dropWhile isspace rest))"
  by pat_completeness auto
termination
proof (relation "measure length")
  show "wf (measure (length :: string \<Rightarrow> nat))"
    by simp
next
  fix s tok rest :: string
  assume rest: "rest = dropWhile (\<lambda>c. \<not> isspace c) s" and ne: "rest \<noteq> []"
  from rest ne have "isspace (hd rest)"
    using hd_dropWhile [of "\<lambda>c. \<not> isspace c" s] by simp
  with ne have "length (dropWhile isspace rest) < length rest"
    by (cases rest) (simp_all add: le_imp_less_Suc length_dropWhile_le)
  moreover from rest have "length rest \<le> length s"
    by (simp add: length_dropWhile_le)
  ultimately show "(dropWhile isspace rest, s) \<in> measure length"
    by simp
qed

subsection \<open>The floating-point token\<close>

text \<open>
  \<^verbatim>\<open>FLOAT_TOKEN = [+-]?(?:\d+(?:\.\d*)?|\.\d+)(?:[eE][+-]?\d+)?\<close>, matched at the
  start of \<open>s\<close> as the backtracking engine does; every function returns the matched
  text and the rest of the string.

  Each piece is greedy, and the first choice of the engine is the match: the pieces
  after the mantissa are optional, so they never fail and the engine never gives a
  digit of \<^verbatim>\<open>\d+\<close> or \<^verbatim>\<open>\d*\<close> back; and where the engine retries \<^verbatim>\<open>[+-]?\<close> as
  empty, the next piece has to start with a digit or a dot at the sign, and fails.
\<close>

text \<open>\<^verbatim>\<open>[+-]?\<close>\<close>

definition opt_sign :: "string \<Rightarrow> string \<times> string" where
  "opt_sign s =
     (case s of
        [] \<Rightarrow> ([], [])
      | c # cs \<Rightarrow> if is_sign c then ([c], cs) else ([], s))"

text \<open>\<^verbatim>\<open>\d*\<close>; \<^verbatim>\<open>\d+\<close> is \<^verbatim>\<open>\d*\<close> with a non-empty match.\<close>

definition digits :: "string \<Rightarrow> string \<times> string" where
  "digits s = (takeWhile isdigit s, dropWhile isdigit s)"

text \<open>\<^verbatim>\<open>(?:\d+(?:\.\d*)?|\.\d+)\<close>: the first alternative is tried first.\<close>

definition mantissa :: "string \<Rightarrow> (string \<times> string) option" where
  "mantissa s =
     (let (ds, r) = digits s in
      if ds \<noteq> [] then
        (case r of
           [] \<Rightarrow> Some (ds, r)
         | c # r' \<Rightarrow>
             if c = CHR ''.'' then (let (fs, r'') = digits r' in Some (ds @ c # fs, r''))
             else Some (ds, r))
      else
        (case s of
           [] \<Rightarrow> None
         | c # r' \<Rightarrow>
             if c = CHR ''.'' then
               (let (fs, r'') = digits r' in if fs \<noteq> [] then Some (c # fs, r'') else None)
             else None))"

text \<open>\<^verbatim>\<open>(?:[eE][+-]?\d+)?\<close>: the empty match when the group fails.\<close>

definition exponent :: "string \<Rightarrow> string \<times> string" where
  "exponent s =
     (case s of
        [] \<Rightarrow> ([], [])
      | c # r \<Rightarrow>
          if is_exp c then
            (let (sg, r1) = opt_sign r; (ds, r2) = digits r1
             in if ds \<noteq> [] then (c # sg @ ds, r2) else ([], s))
          else ([], s))"

definition match_float :: "string \<Rightarrow> (string \<times> string) option" where
  "match_float s =
     (let (sg, r) = opt_sign s in
      case mantissa r of
        None \<Rightarrow> None
      | Some (m, r1) \<Rightarrow> (let (e, r2) = exponent r1 in Some (sg @ m @ e, r2)))"

text \<open>A match is never empty and leaves a suffix of the string: the scan below ends.\<close>

lemma opt_sign_append: "opt_sign s = (sg, r) \<Longrightarrow> s = sg @ r"
  by (auto simp: opt_sign_def split: list.splits if_splits)

lemma digits_append: "digits s = (ds, r) \<Longrightarrow> s = ds @ r"
  by (auto simp: digits_def)

lemma mantissa_append: "mantissa s = Some (m, r) \<Longrightarrow> s = m @ r \<and> m \<noteq> []"
  by (auto simp: mantissa_def Let_def split: prod.splits list.splits if_splits
      dest!: digits_append)

lemma exponent_append: "exponent s = (e, r) \<Longrightarrow> s = e @ r"
  by (auto simp: exponent_def Let_def split: prod.splits list.splits if_splits
      dest!: digits_append opt_sign_append)

lemma match_float_append: "match_float s = Some (tok, rest) \<Longrightarrow> s = tok @ rest \<and> tok \<noteq> []"
  by (auto simp: match_float_def Let_def split: prod.splits option.splits
      dest!: opt_sign_append mantissa_append exponent_append)

text \<open>
  \<^verbatim>\<open>float_re.findall(s)\<close>: the pattern has no capturing group, so the result is the
  list of the matches, found from left to right: after a match the scan goes on at
  its end, and where the pattern does not match it moves one character on.
\<close>

function findall :: "string \<Rightarrow> string list" where
  "findall s =
     (if s = [] then []
      else (case match_float s of
              Some (tok, rest) \<Rightarrow> tok # findall rest
            | None \<Rightarrow> findall (tl s)))"
  by pat_completeness auto
termination
proof (relation "measure length")
  show "wf (measure (length :: string \<Rightarrow> nat))"
    by simp
next
  fix s :: string and p tok rest
  assume "match_float s = Some p" and "(tok, rest) = p"
  then have "s = tok @ rest \<and> tok \<noteq> []"
    using match_float_append [of s tok rest] by simp
  then have "length rest < length s"
    by (cases tok) auto
  then show "(rest, s) \<in> measure length"
    by simp
next
  fix s :: string
  assume "s \<noteq> []"
  then show "(tl s, s) \<in> measure length"
    by (cases s) simp_all
qed

subsection \<open>The line parser\<close>

text \<open>
  \<^verbatim>\<open>parse_line_to_fields(line)\<close>. The indices are read only under the length tests
  of the source, so no read is out of range.
\<close>

type_synonym fields = "string \<rightharpoonup> string"

definition parse_line_to_fields :: "string \<Rightarrow> fields" where
  "parse_line_to_fields line =
     (let s = strip line in
      if s = [] \<or> startswith s ''#'' then Map.empty
      else
        let parts = str_split CHR '','' s in
        if length parts \<ge> 5 then
          [''NAME'' \<mapsto> strip (parts ! 0), ''HJD'' \<mapsto> strip (parts ! 1),
           ''MAG'' \<mapsto> strip (parts ! 2), ''MAG_ERR'' \<mapsto> strip (parts ! 3),
           ''FILTER'' \<mapsto> strip (parts ! 4)]
        else
          let parts = re_split_ws s in
          if length parts \<ge> 5 then
            [''NAME'' \<mapsto> strip (parts ! 0), ''HJD'' \<mapsto> strip (parts ! 1),
             ''MAG'' \<mapsto> strip (parts ! 2), ''MAG_ERR'' \<mapsto> strip (parts ! 3),
             ''FILTER'' \<mapsto> strip (parts ! 4)]
          else
            let nums = findall s in
            if length nums \<ge> 3 then
              [''NAME'' \<mapsto> [], ''HJD'' \<mapsto> nums ! 0, ''MAG'' \<mapsto> nums ! 1,
               ''MAG_ERR'' \<mapsto> nums ! 2, ''FILTER'' \<mapsto> []]
            else Map.empty)"

text \<open>What claim C10 says of a value: no leading and no trailing whitespace.\<close>

definition no_edge_space :: "string \<Rightarrow> bool" where
  "no_edge_space v \<longleftrightarrow> v = [] \<or> (\<not> isspace (hd v) \<and> \<not> isspace (last v))"

subsection \<open>The table formatter\<close>

text \<open>
  \<^verbatim>\<open>format_table(rows, selected_cols)\<close>. The two places where the Python can raise are
  kept as error values: \<^verbatim>\<open>max\<close> of an empty list (\<^verbatim>\<open>ValueError\<close>) and the read
  \<^verbatim>\<open>widths[col]\<close> of a missing key (\<^verbatim>\<open>KeyError\<close>).
\<close>

datatype error = ValueError | KeyError

text \<open>\<^verbatim>\<open>max(xs)\<close> of a list of lengths.\<close>

fun py_max :: "nat list \<Rightarrow> error + nat" where
  "py_max [] = Inl ValueError"
| "py_max (x # xs) = Inr (fold max xs x)"

text \<open>\<^verbatim>\<open>r.get(k, d)\<close>\<close>

definition dict_get :: "('k \<rightharpoonup> 'v) \<Rightarrow> 'k \<Rightarrow> 'v \<Rightarrow> 'v" where
  "dict_get r k d = (case r k of None \<Rightarrow> d | Some v \<Rightarrow> v)"

text \<open>\<^verbatim>\<open>widths[col]\<close>\<close>

definition dict_index :: "('k \<rightharpoonup> 'v) \<Rightarrow> 'k \<Rightarrow> error + 'v" where
  "dict_index m k = (case m k of None \<Rightarrow> Inl KeyError | Some v \<Rightarrow> Inr v)"

text \<open>\<^verbatim>\<open>s.ljust(w)\<close>: spaces added on the right up to the width \<open>w\<close>; a longer \<open>s\<close> is kept.\<close>

definition ljust :: "string \<Rightarrow> nat \<Rightarrow> string" where
  "ljust s w = s @ replicate (w - length s) CHR '' ''"

text \<open>\<^verbatim>\<open>sep.join(xs)\<close>\<close>

fun join :: "string \<Rightarrow> string list \<Rightarrow> string" where
  "join sep [] = []"
| "join sep [x] = x"
| "join sep (x # y # ys) = x @ sep @ join sep (y # ys)"

text \<open>
  The rendered value \<^verbatim>\<open>str(r.get(col, ""))\<close>: the values of a Record are strings, and
  \<^verbatim>\<open>str\<close> of a string is the string.
\<close>

definition rendered :: "fields \<Rightarrow> string \<Rightarrow> string" where
  "rendered r col = dict_get r col []"

text \<open>The first loop: the dict \<^verbatim>\<open>widths\<close>, filled column by column.\<close>

fun compute_widths ::
  "fields list \<Rightarrow> string list \<Rightarrow> (string \<rightharpoonup> nat) \<Rightarrow> error + (string \<rightharpoonup> nat)" where
  "compute_widths rows [] widths = Inr widths"
| "compute_widths rows (col # cols) widths =
     (case py_max (map (\<lambda>r. length (rendered r col)) rows @ [length col]) of
        Inl e \<Rightarrow> Inl e
      | Inr max_len \<Rightarrow> compute_widths rows cols (widths(col \<mapsto> max_len + 3)))"

text \<open>
  \<^verbatim>\<open>"".join(f(col).ljust(widths[col]) for col in selected_cols)\<close>, where \<open>f col\<close> is the
  column name for the header and the rendered value for a data row.
\<close>

fun render_line ::
  "(string \<rightharpoonup> nat) \<Rightarrow> (string \<Rightarrow> string) \<Rightarrow> string list \<Rightarrow> error + string" where
  "render_line widths f [] = Inr []"
| "render_line widths f (col # cols) =
     (case dict_index widths col of
        Inl e \<Rightarrow> Inl e
      | Inr w \<Rightarrow>
          (case render_line widths f cols of
             Inl e \<Rightarrow> Inl e
           | Inr rest \<Rightarrow> Inr (ljust (f col) w @ rest)))"

text \<open>The second loop: one line for each row, in the order of the rows.\<close>

fun render_rows ::
  "(string \<rightharpoonup> nat) \<Rightarrow> fields list \<Rightarrow> string list \<Rightarrow> error + string list" where
  "render_rows widths [] cols = Inr []"
| "render_rows widths (r # rows) cols =
     (case render_line widths (rendered r) cols of
        Inl e \<Rightarrow> Inl e
      | Inr line \<Rightarrow>
          (case render_rows widths rows cols of
             Inl e \<Rightarrow> Inl e
           | Inr lines \<Rightarrow> Inr (line # lines)))"

definition format_table :: "fields list \<Rightarrow> string list \<Rightarrow> error + string" where
  "format_table rows selected_cols =
     (case compute_widths rows selected_cols Map.empty of
        Inl e \<Rightarrow> Inl e
      | Inr widths \<Rightarrow>
          (case render_line widths (\<lambda>col. col) selected_cols of
             Inl e \<Rightarrow> Inl e
           | Inr header \<Rightarrow>
               (case render_rows widths rows selected_cols of
                  Inl e \<Rightarrow> Inl e
                | Inr lines \<Rightarrow> Inr (join [CHR 0x0A] (header # lines)))))"

subsection \<open>The table as the specification describes it\<close>

text \<open>
  The width of a column: the maximum over all records of the length of the rendered
  value, and of the length of the column name, plus 3.
\<close>

definition col_width :: "fields list \<Rightarrow> string \<Rightarrow> nat" where
  "col_width rows col = Max (insert (length col) ((\<lambda>r. length (rendered r col)) ` set rows)) + 3"

text \<open>The header line and the line of a record: the fields left-justified, in column order.\<close>

definition header_line :: "fields list \<Rightarrow> string list \<Rightarrow> string" where
  "header_line rows cols = concat (map (\<lambda>col. ljust col (col_width rows col)) cols)"

definition record_line :: "fields list \<Rightarrow> string list \<Rightarrow> fields \<Rightarrow> string" where
  "record_line rows cols r = concat (map (\<lambda>col. ljust (rendered r col) (col_width rows col)) cols)"

text \<open>A line cut at the cumulative widths, and the trailing spaces of a slice trimmed.\<close>

fun slice_widths :: "nat list \<Rightarrow> string \<Rightarrow> string list" where
  "slice_widths [] s = []"
| "slice_widths (w # ws) s = take w s # slice_widths ws (drop w s)"

definition rstrip_spaces :: "string \<Rightarrow> string" where
  "rstrip_spaces s = rev (dropWhile (\<lambda>c. c = CHR '' '') (rev s))"

subsection \<open>Example data\<close>

text \<open>
  Two records and a column selection in another order than the fixed set; the second
  record has no MAG. In \<open>spaced_row\<close> the value ends in a space.
\<close>

abbreviation example_row1 :: fields where
  "example_row1 \<equiv> [''HJD'' \<mapsto> ''2459000.5'', ''MAG'' \<mapsto> ''12.3'']"

abbreviation example_row2 :: fields where
  "example_row2 \<equiv> [''HJD'' \<mapsto> ''7'']"

abbreviation example_rows :: "fields list" where
  "example_rows \<equiv> [example_row1, example_row2]"

abbreviation example_cols :: "string list" where
  "example_cols \<equiv> [''MAG'', ''HJD'']"

abbreviation spaced_row :: fields where
  "spaced_row \<equiv> [''HJD'' \<mapsto> ''1 '']"

section \<open>Properties of the line parser\<close>

text \<open>The recursive equations loop as rewrite rules; they are unfolded by hand.\<close>

declare str_split.simps [simp del] re_split_ws.simps [simp del] findall.simps [simp del]

subsection \<open>Facts about stripping\<close>

lemma rstrip_Cons:
  "rstrip (c # cs) = (if (\<forall>x\<in>set cs. isspace x) \<and> isspace c then [] else c # rstrip cs)"
  by (auto simp: rstrip_def dropWhile_append)

lemma lstrip_all_space: "\<forall>c\<in>set s. isspace c \<Longrightarrow> lstrip s = []"
  by (simp add: lstrip_def)

lemma rstrip_Nil [simp]: "rstrip [] = []"
  by (simp add: rstrip_def)

lemma strip_all_space: "\<forall>c\<in>set s. isspace c \<Longrightarrow> strip s = []"
  by (simp add: strip_def lstrip_all_space)

lemma strip_hash: "dropWhile isspace line = CHR ''#'' # rest \<Longrightarrow> startswith (strip line) ''#''"
  by (simp add: strip_def lstrip_def rstrip_Cons startswith_def isspace_def)

lemma rstrip_last: "rstrip s \<noteq> [] \<Longrightarrow> \<not> isspace (last (rstrip s))"
proof -
  assume ne: "rstrip s \<noteq> []"
  then have "dropWhile isspace (rev s) \<noteq> []"
    by (simp add: rstrip_def)
  then have "\<not> isspace (hd (dropWhile isspace (rev s)))"
    by (rule hd_dropWhile)
  with ne show ?thesis
    by (simp add: rstrip_def last_rev)
qed

lemma rstrip_hd: "\<not> isspace (hd s) \<Longrightarrow> rstrip s \<noteq> [] \<Longrightarrow> hd (rstrip s) = hd s"
  by (cases s) (auto simp: rstrip_Cons split: if_splits)

lemma strip_no_edge_space: "no_edge_space (strip s)"
proof (cases "strip s = []")
  case True
  then show ?thesis by (simp add: no_edge_space_def)
next
  case False
  then have l: "lstrip s \<noteq> []"
    by (auto simp: strip_def)
  then have h: "\<not> isspace (hd (lstrip s))"
    unfolding lstrip_def by (rule hd_dropWhile)
  from False h have "hd (strip s) = hd (lstrip s)"
    by (simp add: strip_def rstrip_hd)
  with h False show ?thesis
    by (simp add: no_edge_space_def strip_def rstrip_last)
qed

lemma dropWhile_none: "\<forall>c\<in>set s. \<not> P c \<Longrightarrow> dropWhile P s = s"
  by (cases s) simp_all

lemma strip_id: "\<forall>c\<in>set s. \<not> isspace c \<Longrightarrow> strip s = s"
  by (simp add: strip_def lstrip_def rstrip_def dropWhile_none)

subsection \<open>Facts about the splits and the numeric tokens\<close>

lemma re_split_ws_unfold:
  "re_split_ws s =
     (if \<forall>c\<in>set s. \<not> isspace c then [s]
      else takeWhile (\<lambda>c. \<not> isspace c) s #
           re_split_ws (dropWhile isspace (dropWhile (\<lambda>c. \<not> isspace c) s)))"
  by (subst re_split_ws.simps) (auto simp: Let_def)

lemma re_split_ws_no_space: "t \<in> set (re_split_ws s) \<Longrightarrow> c \<in> set t \<Longrightarrow> \<not> isspace c"
proof (induction s rule: re_split_ws.induct)
  case (1 s)
  show ?case
  proof (cases "\<forall>c\<in>set s. \<not> isspace c")
    case True
    with "1.prems" show ?thesis
      by (simp add: re_split_ws_unfold [of s])
  next
    case False
    then have ne: "dropWhile (\<lambda>c. \<not> isspace c) s \<noteq> []"
      by simp
    from False have eq: "re_split_ws s = takeWhile (\<lambda>c. \<not> isspace c) s #
        re_split_ws (dropWhile isspace (dropWhile (\<lambda>c. \<not> isspace c) s))"
      by (rule trans [OF re_split_ws_unfold if_not_P])
    from "1.prems"(1) [unfolded eq] have "t = takeWhile (\<lambda>c. \<not> isspace c) s
        \<or> t \<in> set (re_split_ws (dropWhile isspace (dropWhile (\<lambda>c. \<not> isspace c) s)))"
      by simp
    then show ?thesis
    proof
      assume "t = takeWhile (\<lambda>c. \<not> isspace c) s"
      with "1.prems" show ?thesis
        by (auto dest: set_takeWhileD)
    next
      assume "t \<in> set (re_split_ws (dropWhile isspace (dropWhile (\<lambda>c. \<not> isspace c) s)))"
      with "1.IH" [OF refl refl ne] "1.prems" show ?thesis
        by simp
    qed
  qed
qed

lemma digit_not_space: "isdigit c \<Longrightarrow> \<not> isspace c"
  by (auto simp: isdigit_def isspace_def)

lemma sign_not_space: "is_sign c \<Longrightarrow> \<not> isspace c"
  by (auto simp: is_sign_def isspace_def)

lemma exp_not_space: "is_exp c \<Longrightarrow> \<not> isspace c"
  by (auto simp: is_exp_def isspace_def)

lemma dot_not_space: "\<not> isspace CHR ''.''"
  by (simp add: isspace_def)

lemma opt_sign_no_space: "opt_sign s = (sg, r) \<Longrightarrow> c \<in> set sg \<Longrightarrow> \<not> isspace c"
  by (auto simp: opt_sign_def sign_not_space split: list.splits if_splits)

lemma digits_no_space: "digits s = (ds, r) \<Longrightarrow> c \<in> set ds \<Longrightarrow> \<not> isspace c"
  by (auto simp: digits_def digit_not_space dest: set_takeWhileD)

lemma mantissa_no_space: "mantissa s = Some (m, r) \<Longrightarrow> c \<in> set m \<Longrightarrow> \<not> isspace c"
  by (auto simp: mantissa_def Let_def dot_not_space split: prod.splits list.splits if_splits
      dest: digits_no_space)

lemma exponent_no_space: "exponent s = (e, r) \<Longrightarrow> c \<in> set e \<Longrightarrow> \<not> isspace c"
  by (auto simp: exponent_def Let_def exp_not_space split: prod.splits list.splits if_splits
      dest: digits_no_space opt_sign_no_space)

lemma match_float_no_space: "match_float s = Some (tok, r) \<Longrightarrow> c \<in> set tok \<Longrightarrow> \<not> isspace c"
  by (auto simp: match_float_def Let_def split: prod.splits option.splits
      dest: opt_sign_no_space mantissa_no_space exponent_no_space)

lemma findall_no_space: "t \<in> set (findall s) \<Longrightarrow> c \<in> set t \<Longrightarrow> \<not> isspace c"
proof (induction s rule: findall.induct)
  case (1 s)
  show ?case
  proof (cases "s = []")
    case True
    with "1.prems" show ?thesis
      by (subst (asm) findall.simps) simp
  next
    case ne: False
    show ?thesis
    proof (cases "match_float s")
      case None
      with ne "1.prems" have "t \<in> set (findall (tl s))"
        by (subst (asm) findall.simps) simp
      with "1.IH"(1) [OF ne None] "1.prems" show ?thesis
        by simp
    next
      case (Some p)
      obtain tok rest where p: "p = (tok, rest)"
        by (cases p)
      with ne Some "1.prems" have "t = tok \<or> t \<in> set (findall rest)"
        by (subst (asm) findall.simps) auto
      then show ?thesis
      proof
        assume "t = tok"
        with Some p "1.prems" show ?thesis
          by (auto dest: match_float_no_space)
      next
        assume "t \<in> set (findall rest)"
        with "1.IH"(2) [OF ne Some p [symmetric]] "1.prems" show ?thesis
          by simp
      qed
    qed
  qed
qed

lemma no_space_no_edge: "\<forall>c\<in>set v. \<not> isspace c \<Longrightarrow> no_edge_space v"
  by (cases v) (auto simp: no_edge_space_def)

text \<open>
  The matches of the scan stand in the string as they are, one after the other: a match
  \<open>t\<close> is found after a prefix \<open>pre\<close>, and the scan goes on in what follows it.
\<close>

lemma findall_unfold:
  "findall s =
     (if s = [] then []
      else (case match_float s of
              Some (tok, rest) \<Rightarrow> tok # findall rest
            | None \<Rightarrow> findall (tl s)))"
  by (rule findall.simps)

lemma findall_Cons:
  "findall s = t # ts \<Longrightarrow>
     \<exists>pre rest. s = pre @ t @ rest \<and> match_float (t @ rest) = Some (t, rest) \<and> findall rest = ts"
proof (induction s rule: findall.induct)
  case (1 s)
  from "1.prems" have ne: "s \<noteq> []"
    by (auto simp: findall_unfold [of s])
  show ?case
  proof (cases "match_float s")
    case None
    with ne "1.prems" have "findall (tl s) = t # ts"
      by (simp add: findall_unfold [of s])
    from "1.IH"(1) [OF ne None this] obtain pre rest
      where "tl s = pre @ t @ rest" and m: "match_float (t @ rest) = Some (t, rest)"
        and f: "findall rest = ts"
      by blast
    with ne have "s = (hd s # pre) @ t @ rest"
      by (cases s) simp_all
    with m f show ?thesis
      by blast
  next
    case (Some p)
    obtain tok rest where p: "p = (tok, rest)"
      by (cases p)
    with ne Some "1.prems" have "t = tok" and "findall rest = ts"
      by (simp_all add: findall_unfold [of s])
    moreover from Some p have "s = tok @ rest"
      by (simp add: match_float_append)
    ultimately have "s = [] @ t @ rest \<and> match_float (t @ rest) = Some (t, rest) \<and> findall rest = ts"
      using Some p by simp
    then show ?thesis
      by blast
  qed
qed

lemma findall_three:
  assumes "findall s = n0 # n1 # n2 # extra"
  shows "\<exists>pre m1 m2 post. s = pre @ n0 @ m1 @ n1 @ m2 @ n2 @ post"
proof -
  from findall_Cons [OF assms] obtain pre r0
    where s: "s = pre @ n0 @ r0" and f0: "findall r0 = n1 # n2 # extra"
    by blast
  from findall_Cons [OF f0] obtain m1 r1
    where r0: "r0 = m1 @ n1 @ r1" and f1: "findall r1 = n2 # extra"
    by blast
  from findall_Cons [OF f1] obtain m2 post
    where r1: "r1 = m2 @ n2 @ post"
    by blast
  from s r0 r1 show ?thesis
    by blast
qed

text \<open>
  The comma split is the inverse of joining with commas, and no part holds a comma.
\<close>

lemma join_Cons: "join sep (x # xs) = (if xs = [] then x else x @ sep @ join sep xs)"
  by (cases xs) simp_all

lemma str_split_unfold:
  "str_split d s =
     (if d \<notin> set s then [s]
      else takeWhile (\<lambda>c. c \<noteq> d) s # str_split d (tl (dropWhile (\<lambda>c. c \<noteq> d) s)))"
  by (subst str_split.simps) (auto simp: Let_def)

lemma str_split_not_Nil: "str_split d s \<noteq> []"
  by (subst str_split_unfold) simp

lemma join_str_split: "join [d] (str_split d s) = s"
proof (induction d s rule: str_split.induct)
  case (1 d s)
  show ?case
  proof (cases "d \<in> set s")
    case False
    then show ?thesis
      by (simp add: str_split_unfold [of d s])
  next
    case True
    then have ne: "dropWhile (\<lambda>c. c \<noteq> d) s \<noteq> []"
      by auto
    then have hd: "hd (dropWhile (\<lambda>c. c \<noteq> d) s) = d"
      using hd_dropWhile [of "\<lambda>c. c \<noteq> d" s] by simp
    have "s = takeWhile (\<lambda>c. c \<noteq> d) s @ dropWhile (\<lambda>c. c \<noteq> d) s"
      by simp
    also from ne hd have "dropWhile (\<lambda>c. c \<noteq> d) s = d # tl (dropWhile (\<lambda>c. c \<noteq> d) s)"
      by (cases "dropWhile (\<lambda>c. c \<noteq> d) s") simp_all
    finally have s: "s = takeWhile (\<lambda>c. c \<noteq> d) s @ d # tl (dropWhile (\<lambda>c. c \<noteq> d) s)" .
    from True have "join [d] (str_split d s)
        = takeWhile (\<lambda>c. c \<noteq> d) s @ [d] @ join [d] (str_split d (tl (dropWhile (\<lambda>c. c \<noteq> d) s)))"
      by (simp add: str_split_unfold [of d s] join_Cons str_split_not_Nil)
    also have "\<dots> = takeWhile (\<lambda>c. c \<noteq> d) s @ d # tl (dropWhile (\<lambda>c. c \<noteq> d) s)"
      using "1.IH" [OF refl refl ne] by simp
    finally show ?thesis
      using s by simp
  qed
qed

lemma str_split_no_sep: "p \<in> set (str_split d s) \<Longrightarrow> d \<notin> set p"
proof (induction d s rule: str_split.induct)
  case (1 d s)
  show ?case
  proof (cases "d \<in> set s")
    case False
    with "1.prems" show ?thesis
      by (simp add: str_split_unfold [of d s])
  next
    case True
    then have ne: "dropWhile (\<lambda>c. c \<noteq> d) s \<noteq> []"
      by auto
    from True "1.prems" have "p = takeWhile (\<lambda>c. c \<noteq> d) s
        \<or> p \<in> set (str_split d (tl (dropWhile (\<lambda>c. c \<noteq> d) s)))"
      by (simp add: str_split_unfold [of d s])
    then show ?thesis
    proof
      assume "p = takeWhile (\<lambda>c. c \<noteq> d) s"
      then show ?thesis
        by (auto dest: set_takeWhileD)
    next
      assume "p \<in> set (str_split d (tl (dropWhile (\<lambda>c. c \<noteq> d) s)))"
      then show ?thesis
        by (rule "1.IH" [OF refl refl ne])
    qed
  qed
qed

subsection \<open>The branches of the parser\<close>

text \<open>The parser with its local bindings unfolded.\<close>

lemma parse_unfold:
  "parse_line_to_fields line =
     (if strip line = [] \<or> startswith (strip line) ''#'' then Map.empty
      else if length (str_split CHR '','' (strip line)) \<ge> 5 then
          [''NAME'' \<mapsto> strip (str_split CHR '','' (strip line) ! 0),
           ''HJD'' \<mapsto> strip (str_split CHR '','' (strip line) ! 1),
           ''MAG'' \<mapsto> strip (str_split CHR '','' (strip line) ! 2),
           ''MAG_ERR'' \<mapsto> strip (str_split CHR '','' (strip line) ! 3),
           ''FILTER'' \<mapsto> strip (str_split CHR '','' (strip line) ! 4)]
      else if length (re_split_ws (strip line)) \<ge> 5 then
          [''NAME'' \<mapsto> strip (re_split_ws (strip line) ! 0),
           ''HJD'' \<mapsto> strip (re_split_ws (strip line) ! 1),
           ''MAG'' \<mapsto> strip (re_split_ws (strip line) ! 2),
           ''MAG_ERR'' \<mapsto> strip (re_split_ws (strip line) ! 3),
           ''FILTER'' \<mapsto> strip (re_split_ws (strip line) ! 4)]
      else if length (findall (strip line)) \<ge> 3 then
          [''NAME'' \<mapsto> [], ''HJD'' \<mapsto> findall (strip line) ! 0,
           ''MAG'' \<mapsto> findall (strip line) ! 1,
           ''MAG_ERR'' \<mapsto> findall (strip line) ! 2, ''FILTER'' \<mapsto> []]
      else Map.empty)"
  unfolding parse_line_to_fields_def Let_def by (rule refl)

text \<open>
  Claim C1. When the trimmed line is not empty, does not start with \<^verbatim>\<open>#\<close>, and its split
  on commas has at least five parts \<open>p0, p1, p2, p3, p4\<close> (and any further parts
  \<open>extra\<close>), the parser returns the Record that maps NAME, HJD, MAG, MAG_ERR and FILTER
  to these five parts, each stripped; the further parts do not appear in it.
\<close>

theorem parse_comma_fields:
  assumes "strip line \<noteq> []" and "\<not> startswith (strip line) ''#''"
    and "str_split CHR '','' (strip line) = p0 # p1 # p2 # p3 # p4 # extra"
  shows "parse_line_to_fields line =
     [''NAME'' \<mapsto> strip p0, ''HJD'' \<mapsto> strip p1, ''MAG'' \<mapsto> strip p2,
      ''MAG_ERR'' \<mapsto> strip p3, ''FILTER'' \<mapsto> strip p4]"
  using assms by (simp add: parse_unfold)

theorem parse_comma_fields_witness:
  "strip '' V1234, 2459000.123 ,12.345,0.012,V,extra,more '' \<noteq> []
   \<and> \<not> startswith (strip '' V1234, 2459000.123 ,12.345,0.012,V,extra,more '') ''#''
   \<and> str_split CHR '','' (strip '' V1234, 2459000.123 ,12.345,0.012,V,extra,more '')
       = [''V1234'', '' 2459000.123 '', ''12.345'', ''0.012'', ''V'', ''extra'', ''more'']
   \<and> parse_line_to_fields '' V1234, 2459000.123 ,12.345,0.012,V,extra,more '' =
     [''NAME'' \<mapsto> ''V1234'', ''HJD'' \<mapsto> ''2459000.123'', ''MAG'' \<mapsto> ''12.345'',
      ''MAG_ERR'' \<mapsto> ''0.012'', ''FILTER'' \<mapsto> ''V'']"
proof -
  have h1: "strip '' V1234, 2459000.123 ,12.345,0.012,V,extra,more '' \<noteq> []"
    by code_simp
  have h2: "\<not> startswith (strip '' V1234, 2459000.123 ,12.345,0.012,V,extra,more '') ''#''"
    by code_simp
  have h3: "str_split CHR '','' (strip '' V1234, 2459000.123 ,12.345,0.012,V,extra,more '')
       = [''V1234'', '' 2459000.123 '', ''12.345'', ''0.012'', ''V'', ''extra'', ''more'']"
    by code_simp
  have s: "strip ''V1234'' = ''V1234''" "strip '' 2459000.123 '' = ''2459000.123''"
    "strip ''12.345'' = ''12.345''" "strip ''0.012'' = ''0.012''" "strip ''V'' = ''V''"
    by code_simp+
  show ?thesis
    using parse_comma_fields [OF h1 h2 h3] h1 h2 h3 by (simp only: s simp_thms)
qed

text \<open>
  Claim C2. When the line is neither blank nor a comment, its split on commas has fewer
  than five parts, and its split on runs of whitespace has at least five tokens
  \<open>t0, t1, t2, t3, t4\<close> (and any further tokens \<open>extra\<close>), the parser returns the Record
  that maps NAME, HJD, MAG, MAG_ERR and FILTER to these five tokens, in this order; the
  further tokens do not appear in it.
\<close>

theorem parse_whitespace_fields:
  assumes "strip line \<noteq> []" and "\<not> startswith (strip line) ''#''"
    and "length (str_split CHR '','' (strip line)) < 5"
    and "re_split_ws (strip line) = t0 # t1 # t2 # t3 # t4 # extra"
  shows "parse_line_to_fields line =
     [''NAME'' \<mapsto> t0, ''HJD'' \<mapsto> t1, ''MAG'' \<mapsto> t2, ''MAG_ERR'' \<mapsto> t3, ''FILTER'' \<mapsto> t4]"
proof -
  have "strip t = t" if "t \<in> set (re_split_ws (strip line))" for t
    using that by (intro strip_id ballI) (rule re_split_ws_no_space)
  with assms(4) have "strip t0 = t0" "strip t1 = t1" "strip t2 = t2" "strip t3 = t3" "strip t4 = t4"
    by simp_all
  with assms show ?thesis
    by (simp add: parse_unfold)
qed

theorem parse_whitespace_fields_witness:
  "strip ''obs 2459000.5  12.3 0.05 R tail'' \<noteq> []
   \<and> \<not> startswith (strip ''obs 2459000.5  12.3 0.05 R tail'') ''#''
   \<and> length (str_split CHR '','' (strip ''obs 2459000.5  12.3 0.05 R tail'')) < 5
   \<and> re_split_ws (strip ''obs 2459000.5  12.3 0.05 R tail'')
       = [''obs'', ''2459000.5'', ''12.3'', ''0.05'', ''R'', ''tail'']
   \<and> parse_line_to_fields ''obs 2459000.5  12.3 0.05 R tail'' =
     [''NAME'' \<mapsto> ''obs'', ''HJD'' \<mapsto> ''2459000.5'', ''MAG'' \<mapsto> ''12.3'',
      ''MAG_ERR'' \<mapsto> ''0.05'', ''FILTER'' \<mapsto> ''R'']"
proof -
  have h1: "strip ''obs 2459000.5  12.3 0.05 R tail'' \<noteq> []"
    by code_simp
  have h2: "\<not> startswith (strip ''obs 2459000.5  12.3 0.05 R tail'') ''#''"
    by code_simp
  have h3: "length (str_split CHR '','' (strip ''obs 2459000.5  12.3 0.05 R tail'')) < 5"
    by code_simp
  have h4: "re_split_ws (strip ''obs 2459000.5  12.3 0.05 R tail'')
       = [''obs'', ''2459000.5'', ''12.3'', ''0.05'', ''R'', ''tail'']"
    by code_simp
  show ?thesis
    using parse_whitespace_fields [OF h1 h2 h3 h4] h1 h2 h3 h4 by (simp only: simp_thms)
qed

text \<open>
  Claim C3. When the line is neither blank nor a comment, both splits have fewer than
  five parts, and the scan for floating-point tokens finds at least three of them,
  \<open>n0, n1, n2\<close> (and any further tokens \<open>extra\<close>), the parser returns the Record with
  NAME and FILTER empty and HJD, MAG, MAG_ERR the first three tokens; the further tokens
  do not appear in it. The three tokens are pieces of the trimmed line, in this order
  and unchanged.
\<close>

theorem parse_numeric_fallback:
  assumes "strip line \<noteq> []" and "\<not> startswith (strip line) ''#''"
    and "length (str_split CHR '','' (strip line)) < 5"
    and "length (re_split_ws (strip line)) < 5"
    and "findall (strip line) = n0 # n1 # n2 # extra"
  shows "parse_line_to_fields line =
     [''NAME'' \<mapsto> [], ''HJD'' \<mapsto> n0, ''MAG'' \<mapsto> n1, ''MAG_ERR'' \<mapsto> n2, ''FILTER'' \<mapsto> []]
   \<and> (\<exists>pre m1 m2 post. strip line = pre @ n0 @ m1 @ n1 @ m2 @ n2 @ post)"
  using assms findall_three [of "strip line" n0 n1 n2 extra] by (simp add: parse_unfold)

theorem parse_numeric_fallback_witness:
  "strip ''noise 2459000.5 12.3 0.05e-1x7'' \<noteq> []
   \<and> \<not> startswith (strip ''noise 2459000.5 12.3 0.05e-1x7'') ''#''
   \<and> length (str_split CHR '','' (strip ''noise 2459000.5 12.3 0.05e-1x7'')) < 5
   \<and> length (re_split_ws (strip ''noise 2459000.5 12.3 0.05e-1x7'')) < 5
   \<and> findall (strip ''noise 2459000.5 12.3 0.05e-1x7'') = [''2459000.5'', ''12.3'', ''0.05e-1'', ''7'']
   \<and> parse_line_to_fields ''noise 2459000.5 12.3 0.05e-1x7'' =
     [''NAME'' \<mapsto> [], ''HJD'' \<mapsto> ''2459000.5'', ''MAG'' \<mapsto> ''12.3'',
      ''MAG_ERR'' \<mapsto> ''0.05e-1'', ''FILTER'' \<mapsto> []]"
proof -
  have h1: "strip ''noise 2459000.5 12.3 0.05e-1x7'' \<noteq> []"
    by code_simp
  have h2: "\<not> startswith (strip ''noise 2459000.5 12.3 0.05e-1x7'') ''#''"
    by code_simp
  have h3: "length (str_split CHR '','' (strip ''noise 2459000.5 12.3 0.05e-1x7'')) < 5"
    by code_simp
  have h4: "length (re_split_ws (strip ''noise 2459000.5 12.3 0.05e-1x7'')) < 5"
    by code_simp
  have h5: "findall (strip ''noise 2459000.5 12.3 0.05e-1x7'')
      = [''2459000.5'', ''12.3'', ''0.05e-1'', ''7'']"
    by code_simp
  show ?thesis
    using parse_numeric_fallback [OF h1 h2 h3 h4 h5, THEN conjunct1] h1 h2 h3 h4 h5
    by (simp only: simp_thms)
qed

text \<open>
  Claim C4. A line that is empty, that holds only whitespace, or whose first character
  that is not whitespace is \<^verbatim>\<open>#\<close>, gives the empty Record, whatever the comma split,
  the whitespace split or the numeric scan would find in it.
\<close>

theorem parse_blank_or_comment:
  assumes "(\<forall>c\<in>set line. isspace c) \<or> (\<exists>rest. dropWhile isspace line = CHR ''#'' # rest)"
  shows "parse_line_to_fields line = Map.empty"
  using assms by (auto simp: parse_unfold strip_all_space strip_hash)

theorem parse_blank_or_comment_witness:
  "dropWhile isspace ''  # V1234,2459000.123,12.345,0.012,V'' = ''# V1234,2459000.123,12.345,0.012,V''
   \<and> parse_line_to_fields ''  # V1234,2459000.123,12.345,0.012,V'' = Map.empty
   \<and> parse_line_to_fields [CHR 0x20, CHR 0x09, CHR 0x0A] = Map.empty
   \<and> parse_line_to_fields [] = Map.empty"
proof -
  have h: "dropWhile isspace ''  # V1234,2459000.123,12.345,0.012,V'' = ''# V1234,2459000.123,12.345,0.012,V''"
    by code_simp
  have b: "\<forall>c\<in>set [CHR 0x20, CHR 0x09, CHR 0x0A]. isspace c"
    by (simp add: isspace_def)
  show ?thesis
    using parse_blank_or_comment [of "''  # V1234,2459000.123,12.345,0.012,V''"]
      parse_blank_or_comment [of "[CHR 0x20, CHR 0x09, CHR 0x0A]"]
      parse_blank_or_comment [of "[]"] h b
    by simp
qed

text \<open>
  Claim C8. A Record the parser returns is empty or has the keys HJD, MAG and MAG_ERR.
\<close>

theorem parse_nonempty_keys:
  assumes "parse_line_to_fields line \<noteq> Map.empty"
  shows "{''HJD'', ''MAG'', ''MAG_ERR''} \<subseteq> dom (parse_line_to_fields line)"
  using assms by (simp add: parse_unfold split: if_splits)


theorem parse_nonempty_keys_witness:
  "parse_line_to_fields ''noise 2459000.5 12.3 0.05'' \<noteq> Map.empty
   \<and> {''HJD'', ''MAG'', ''MAG_ERR''} \<subseteq> dom (parse_line_to_fields ''noise 2459000.5 12.3 0.05'')"
proof -
  have "parse_line_to_fields ''noise 2459000.5 12.3 0.05'' ''HJD'' = Some ''2459000.5''"
    by code_simp
  then have h: "parse_line_to_fields ''noise 2459000.5 12.3 0.05'' \<noteq> Map.empty"
    by auto
  show ?thesis
    using parse_nonempty_keys [OF h] h by simp
qed

text \<open>
  Claim C10. Every value of the Record the parser returns has no leading and no
  trailing whitespace.
\<close>

theorem parse_values_no_edge_space:
  assumes "parse_line_to_fields line k = Some v"
  shows "no_edge_space v"
proof -
  have nums: "no_edge_space (findall (strip line) ! i)"
    if "3 \<le> length (findall (strip line))" and "i < 3" for i
  proof (rule no_space_no_edge, rule ballI)
    fix c
    assume "c \<in> set (findall (strip line) ! i)"
    moreover from that have "findall (strip line) ! i \<in> set (findall (strip line))"
      by simp
    ultimately show "\<not> isspace c"
      by (rule findall_no_space [rotated])
  qed
  have empty: "no_edge_space []"
    by (simp add: no_edge_space_def)
  from assms show ?thesis
    by (auto simp: parse_unfold strip_no_edge_space nums empty split: if_splits)
qed

theorem parse_values_no_edge_space_witness:
  "parse_line_to_fields '' V1234, 2459000.123 ,12.345,0.012,V '' ''HJD'' = Some ''2459000.123''
   \<and> no_edge_space ''2459000.123''"
proof -
  have h: "parse_line_to_fields '' V1234, 2459000.123 ,12.345,0.012,V '' ''HJD'' = Some ''2459000.123''"
    by code_simp
  show ?thesis
    using parse_values_no_edge_space [OF h] h by simp
qed

section \<open>Properties of the table formatter\<close>

subsection \<open>The widths and the lines\<close>

lemma py_max_eq: "py_max xs = (if xs = [] then Inl ValueError else Inr (Max (set xs)))"
proof (cases xs)
  case Nil
  then show ?thesis by simp
next
  case (Cons x xs')
  then show ?thesis
    using Max.set_eq_fold [of x xs'] by simp
qed

lemma py_max_col:
  "py_max (map (\<lambda>r. length (rendered r col)) rows @ [length col]) = Inr (col_width rows col - 3)"
  by (simp add: py_max_eq col_width_def)

lemma compute_widths_eq:
  "compute_widths rows cols widths =
     Inr (\<lambda>c. if c \<in> set cols then Some (col_width rows c) else widths c)"
proof (induction cols arbitrary: widths)
  case Nil
  show ?case by simp
next
  case (Cons col cols)
  have "col_width rows col - 3 + 3 = col_width rows col"
    by (simp add: col_width_def)
  then show ?case
    by (auto simp: py_max_col Cons.IH)
qed

lemma render_line_eq:
  assumes "\<forall>c\<in>set cols. widths c = Some (w c)"
  shows "render_line widths f cols = Inr (concat (map (\<lambda>c. ljust (f c) (w c)) cols))"
  using assms by (induction cols) (simp_all add: dict_index_def)

lemma render_rows_eq:
  assumes "\<forall>c\<in>set cols. widths c = Some (w c)"
  shows "render_rows widths rows cols =
     Inr (map (\<lambda>r. concat (map (\<lambda>c. ljust (rendered r c) (w c)) cols)) rows)"
  by (induction rows) (simp_all add: render_line_eq [OF assms])

lemma format_table_eq:
  "format_table rows cols =
     Inr (join [CHR 0x0A] (header_line rows cols # map (record_line rows cols) rows))"
proof -
  let ?widths = "\<lambda>c. if c \<in> set cols then Some (col_width rows c) else None"
  have w: "\<forall>c\<in>set cols. ?widths c = Some (col_width rows c)"
    by simp
  show ?thesis
    unfolding format_table_def compute_widths_eq header_line_def record_line_def
    by (simp add: render_line_eq [OF w] render_rows_eq [OF w] cong: map_cong)
qed


subsection \<open>Slicing a line at the widths\<close>

lemma col_width_ge_name: "length col + 3 \<le> col_width rows col"
  by (simp add: col_width_def)

lemma col_width_ge_value: "r \<in> set rows \<Longrightarrow> length (rendered r col) + 3 \<le> col_width rows col"
  by (simp add: col_width_def Max_ge_iff)

lemma col_width_empty: "col_width [] col = length col + 3"
  by (simp add: col_width_def)

lemma length_ljust: "length s \<le> w \<Longrightarrow> length (ljust s w) = w"
  by (simp add: ljust_def)

lemma slice_widths_concat:
  assumes "\<forall>c\<in>set cols. length (f c) \<le> w c"
  shows "slice_widths (map w cols) (concat (map (\<lambda>c. ljust (f c) (w c)) cols))
    = map (\<lambda>c. ljust (f c) (w c)) cols"
  using assms by (induction cols) (simp_all add: length_ljust)

lemma rstrip_spaces_ljust: "rstrip_spaces (ljust s w) = rstrip_spaces s"
  by (simp add: rstrip_spaces_def ljust_def dropWhile_append)

lemma rstrip_spaces_id: "s = [] \<or> last s \<noteq> CHR '' '' \<Longrightarrow> rstrip_spaces s = s"
  by (cases s rule: rev_cases) (auto simp: rstrip_spaces_def)

lemma join_empty_lines: "join sep ([] # replicate n []) = concat (replicate n sep)"
  by (induction n) simp_all


subsection \<open>Newlines of the output\<close>

lemma count_join:
  assumes "\<forall>y\<in>set (x # xs). d \<notin> set y"
  shows "count_list (join [d] (x # xs)) d = length xs"
  using assms
proof (induction xs arbitrary: x)
  case Nil
  then show ?case by (simp add: count_list_0_iff)
next
  case (Cons y ys)
  then have "count_list x d = 0" and "count_list (join [d] (y # ys)) d = length ys"
    by (simp_all add: count_list_0_iff)
  then show ?case by simp
qed

lemma set_ljust: "set (ljust s w) \<subseteq> insert CHR '' '' (set s)"
  by (auto simp: ljust_def)

lemma newline_not_in_line:
  assumes "\<forall>c\<in>set cols. CHR 0x0A \<notin> set (f c)"
  shows "CHR 0x0A \<notin> set (concat (map (\<lambda>c. ljust (f c) (w c)) cols))"
  using assms set_ljust by fastforce

text \<open>
  Claim C5. For every list of records and every list of columns, the width the formatter
  computes for a selected column is the maximum of the lengths of the rendered values of
  the column over all records and of the length of the column name, plus 3; with no
  record it is the length of the column name plus 3.
\<close>

theorem compute_widths_max:
  "compute_widths rows cols Map.empty =
     Inr (\<lambda>col. if col \<in> set cols
                then Some (Max (insert (length col) ((\<lambda>r. length (rendered r col)) ` set rows)) + 3)
                else None)
   \<and> compute_widths [] cols Map.empty =
     Inr (\<lambda>col. if col \<in> set cols then Some (length col + 3) else None)"
  by (auto simp: compute_widths_eq col_width_def fun_eq_iff)

theorem compute_widths_max_witness:
  "\<exists>widths. compute_widths example_rows example_cols Map.empty = Inr widths
     \<and> widths ''MAG'' = Some 7 \<and> widths ''HJD'' = Some 12 \<and> widths ''NAME'' = None"
  using compute_widths_max [of example_rows example_cols]
  by (simp add: rendered_def dict_get_def)

text \<open>
  Claim C6. The output of the formatter is the header line followed by one line for each
  record, in the order of the records, joined by single newlines with nothing after the
  last line. The header line is the column names, each left-justified to the width of
  its column, in the order of the caller and with no separator; the line of a record is
  its values for these columns (the empty string for a missing key), left-justified to
  the same widths. When no column name and no value holds a newline, the output has
  exactly as many newlines as there are records.
\<close>

theorem format_table_lines:
  "format_table rows cols =
     Inr (join [CHR 0x0A] (header_line rows cols # map (record_line rows cols) rows))
   \<and> length (header_line rows cols # map (record_line rows cols) rows) = 1 + length rows
   \<and> ((\<forall>c\<in>set cols. CHR 0x0A \<notin> set c \<and> (\<forall>r\<in>set rows. CHR 0x0A \<notin> set (rendered r c)))
      \<longrightarrow> count_list (join [CHR 0x0A] (header_line rows cols # map (record_line rows cols) rows))
            CHR 0x0A = length rows)"
proof (intro conjI impI)
  show "format_table rows cols =
     Inr (join [CHR 0x0A] (header_line rows cols # map (record_line rows cols) rows))"
    by (rule format_table_eq)
next
  show "length (header_line rows cols # map (record_line rows cols) rows) = 1 + length rows"
    by simp
next
  assume clean: "\<forall>c\<in>set cols. CHR 0x0A \<notin> set c \<and> (\<forall>r\<in>set rows. CHR 0x0A \<notin> set (rendered r c))"
  have "CHR 0x0A \<notin> set (header_line rows cols)"
    unfolding header_line_def using clean by (intro newline_not_in_line) simp
  moreover have "CHR 0x0A \<notin> set (record_line rows cols r)" if "r \<in> set rows" for r
    unfolding record_line_def using clean that by (intro newline_not_in_line) simp
  ultimately have "\<forall>y\<in>set (header_line rows cols # map (record_line rows cols) rows). CHR 0x0A \<notin> set y"
    by auto
  then show "count_list (join [CHR 0x0A] (header_line rows cols # map (record_line rows cols) rows))
            CHR 0x0A = length rows"
    using count_join [of "header_line rows cols" "map (record_line rows cols) rows" "CHR 0x0A"]
    by simp
qed

theorem format_table_lines_witness:
  "format_table example_rows example_cols =
     Inr (''MAG    HJD         '' @ [CHR 0x0A] @
          ''12.3   2459000.5   '' @ [CHR 0x0A] @
          ''       7           '')
   \<and> count_list (''MAG    HJD         '' @ [CHR 0x0A] @
                 ''12.3   2459000.5   '' @ [CHR 0x0A] @
                 ''       7           '') CHR 0x0A = 2"
proof -
  have h: "header_line example_rows example_cols = ''MAG    HJD         ''"
    by code_simp
  have l1: "record_line example_rows example_cols example_row1 = ''12.3   2459000.5   ''"
    by code_simp
  have l2: "record_line example_rows example_cols example_row2 = ''       7           ''"
    by code_simp
  have clean: "\<forall>c\<in>set example_cols. CHR 0x0A \<notin> set c
      \<and> (\<forall>r\<in>set example_rows. CHR 0x0A \<notin> set (rendered r c))"
    by (simp add: rendered_def dict_get_def)
  show ?thesis
    using format_table_lines [of example_rows example_cols] clean
    by (simp add: h l1 l2)
qed

lemma slices_header:
  "map rstrip_spaces (slice_widths (map (col_width rows) cols) (header_line rows cols))
     = map rstrip_spaces cols"
proof -
  have "\<forall>c\<in>set cols. length c \<le> col_width rows c"
  proof
    fix c
    show "length c \<le> col_width rows c"
      using col_width_ge_name [of c rows] by simp
  qed
  then show ?thesis
    unfolding header_line_def
    by (simp add: slice_widths_concat [where f = "\<lambda>c. c"] rstrip_spaces_ljust comp_def)
qed

lemma slices_record:
  assumes "r \<in> set rows"
  shows "map rstrip_spaces (slice_widths (map (col_width rows) cols) (record_line rows cols r))
     = map (\<lambda>c. rstrip_spaces (rendered r c)) cols"
proof -
  have "\<forall>c\<in>set cols. length (rendered r c) \<le> col_width rows c"
  proof
    fix c
    show "length (rendered r c) \<le> col_width rows c"
      using col_width_ge_value [OF assms, of c] by simp
  qed
  then show ?thesis
    unfolding record_line_def
    by (simp add: slice_widths_concat [where f = "rendered r"] rstrip_spaces_ljust comp_def)
qed

text \<open>
  Claim C7, as stated, fails for a value that ends in a space: the formatter pads with
  spaces, so trimming the slice also removes the spaces of the value itself. For the one
  record with HJD = \<open>''1 ''\<close> and the column HJD, the slice of the record line trims to
  \<open>''1''\<close>.
\<close>

theorem format_table_slices_counterexample:
  "format_table [spaced_row] [''HJD''] = Inr (''HJD   '' @ [CHR 0x0A] @ ''1     '')
   \<and> col_width [spaced_row] ''HJD'' = 6
   \<and> map rstrip_spaces (slice_widths [6] ''1     '') = [''1'']
   \<and> map (rendered spaced_row) [''HJD''] = [''1 '']
   \<and> map rstrip_spaces
         (slice_widths (map (col_width [spaced_row]) [''HJD''])
            (record_line [spaced_row] [''HJD''] spaced_row))
       \<noteq> map (rendered spaced_row) [''HJD'']"
proof -
  have f: "format_table [spaced_row] [''HJD''] = Inr (''HJD   '' @ [CHR 0x0A] @ ''1     '')"
    by code_simp
  have w: "col_width [spaced_row] ''HJD'' = 6"
    by code_simp
  have l: "record_line [spaced_row] [''HJD''] spaced_row = ''1     ''"
    by code_simp
  have s: "rstrip_spaces ''1     '' = ''1''"
    by code_simp
  have r: "rendered spaced_row ''HJD'' = ''1 ''"
    by code_simp
  show ?thesis
    by (simp add: f w l s r)
qed

text \<open>
  Claim C7, amended. For every list of records and every list of columns, cutting the
  header line or the line of a record at the cumulative widths and trimming the trailing
  spaces of each slice gives the column names, and the values of the record, with their
  own trailing spaces trimmed; it gives exactly the column names when none of them ends
  in a space, and exactly the values of a record when none of them ends in a space. Each
  width is at least 3 more than the length of the column name and of every value of the
  column.
\<close>

theorem format_table_slices:
  "format_table rows cols =
     Inr (join [CHR 0x0A] (header_line rows cols # map (record_line rows cols) rows))
   \<and> map rstrip_spaces (slice_widths (map (col_width rows) cols) (header_line rows cols))
       = map rstrip_spaces cols
   \<and> (\<forall>r\<in>set rows.
        map rstrip_spaces (slice_widths (map (col_width rows) cols) (record_line rows cols r))
          = map (\<lambda>c. rstrip_spaces (rendered r c)) cols)
   \<and> ((\<forall>c\<in>set cols. c = [] \<or> last c \<noteq> CHR '' '') \<longrightarrow>
        map rstrip_spaces (slice_widths (map (col_width rows) cols) (header_line rows cols)) = cols)
   \<and> (\<forall>r\<in>set rows.
        (\<forall>c\<in>set cols. rendered r c = [] \<or> last (rendered r c) \<noteq> CHR '' '') \<longrightarrow>
        map rstrip_spaces (slice_widths (map (col_width rows) cols) (record_line rows cols r))
          = map (rendered r) cols)
   \<and> (\<forall>c\<in>set cols. length c + 3 \<le> col_width rows c
        \<and> (\<forall>r\<in>set rows. length (rendered r c) + 3 \<le> col_width rows c))"
proof (intro conjI ballI impI)
  show "format_table rows cols =
     Inr (join [CHR 0x0A] (header_line rows cols # map (record_line rows cols) rows))"
    by (rule format_table_eq)
next
  show "map rstrip_spaces (slice_widths (map (col_width rows) cols) (header_line rows cols))
       = map rstrip_spaces cols"
    by (rule slices_header)
next
  fix r assume "r \<in> set rows"
  then show "map rstrip_spaces (slice_widths (map (col_width rows) cols) (record_line rows cols r))
          = map (\<lambda>c. rstrip_spaces (rendered r c)) cols"
    by (rule slices_record)
next
  assume "\<forall>c\<in>set cols. c = [] \<or> last c \<noteq> CHR '' ''"
  then have "map rstrip_spaces cols = cols"
    by (simp add: map_idI rstrip_spaces_id)
  then show "map rstrip_spaces (slice_widths (map (col_width rows) cols) (header_line rows cols)) = cols"
    by (simp add: slices_header)
next
  fix r assume r: "r \<in> set rows"
    and "\<forall>c\<in>set cols. rendered r c = [] \<or> last (rendered r c) \<noteq> CHR '' ''"
  then have "map (\<lambda>c. rstrip_spaces (rendered r c)) cols = map (rendered r) cols"
    by (simp add: rstrip_spaces_id)
  then show "map rstrip_spaces (slice_widths (map (col_width rows) cols) (record_line rows cols r))
          = map (rendered r) cols"
    by (simp add: slices_record [OF r])
next
  fix c
  show "length c + 3 \<le> col_width rows c"
    by (rule col_width_ge_name)
next
  fix c r assume "r \<in> set rows"
  then show "length (rendered r c) + 3 \<le> col_width rows c"
    by (rule col_width_ge_value)
qed

theorem format_table_slices_witness:
  "format_table example_rows example_cols =
     Inr (''MAG    HJD         '' @ [CHR 0x0A] @
          ''12.3   2459000.5   '' @ [CHR 0x0A] @
          ''       7           '')
   \<and> map (col_width example_rows) example_cols = [7, 12]
   \<and> map rstrip_spaces (slice_widths [7, 12] ''MAG    HJD         '') = [''MAG'', ''HJD'']
   \<and> map rstrip_spaces (slice_widths [7, 12] ''12.3   2459000.5   '') = [''12.3'', ''2459000.5'']
   \<and> map rstrip_spaces (slice_widths [7, 12] ''       7           '') = [[], ''7'']"
proof -
  have h: "header_line example_rows example_cols = ''MAG    HJD         ''"
    by code_simp
  have l1: "record_line example_rows example_cols example_row1 = ''12.3   2459000.5   ''"
    by code_simp
  have l2: "record_line example_rows example_cols example_row2 = ''       7           ''"
    by code_simp
  have w: "col_width example_rows ''MAG'' = 7" "col_width example_rows ''HJD'' = 12"
    by code_simp+
  have v1: "rendered example_row1 ''MAG'' = ''12.3''" "rendered example_row1 ''HJD'' = ''2459000.5''"
    by code_simp+
  have v2: "rendered example_row2 ''MAG'' = []" "rendered example_row2 ''HJD'' = ''7''"
    by code_simp+
  have c: "\<forall>c\<in>set example_cols. c = [] \<or> last c \<noteq> CHR '' ''"
    by simp
  have c1: "\<forall>c\<in>set example_cols.
      rendered example_row1 c = [] \<or> last (rendered example_row1 c) \<noteq> CHR '' ''"
    by (simp add: rendered_def dict_get_def)
  have c2: "\<forall>c\<in>set example_cols.
      rendered example_row2 c = [] \<or> last (rendered example_row2 c) \<noteq> CHR '' ''"
    by (simp add: rendered_def dict_get_def)
  have m1: "example_row1 \<in> set example_rows" and m2: "example_row2 \<in> set example_rows"
    by simp_all
  from format_table_slices [of example_rows example_cols]
  have "format_table example_rows example_cols =
      Inr (join [CHR 0x0A]
        (header_line example_rows example_cols
         # map (record_line example_rows example_cols) example_rows))"
    and "map rstrip_spaces (slice_widths (map (col_width example_rows) example_cols)
          (header_line example_rows example_cols)) = example_cols"
    and "map rstrip_spaces (slice_widths (map (col_width example_rows) example_cols)
          (record_line example_rows example_cols example_row1))
        = map (rendered example_row1) example_cols"
    and "map rstrip_spaces (slice_widths (map (col_width example_rows) example_cols)
          (record_line example_rows example_cols example_row2))
        = map (rendered example_row2) example_cols"
    using c c1 c2 m1 m2 by blast+
  then show ?thesis
    by (simp add: h l1 l2 w v1 v2)
qed

text \<open>
  Claim C9. The formatter returns a string for every input, never an error. With no
  column the header line and the line of every record are empty, and the output is one
  newline for each record and nothing else.
\<close>

theorem format_table_total:
  "(\<exists>out. format_table rows cols = Inr out)
   \<and> format_table rows [] = Inr (replicate (length rows) CHR 0x0A)
   \<and> header_line rows [] = []
   \<and> map (record_line rows []) rows = replicate (length rows) []"
proof -
  have "concat (replicate n [CHR 0x0A]) = replicate n CHR 0x0A" for n
    by (induction n) simp_all
  moreover have "map (record_line rows []) xs = replicate (length xs) []" for xs
    by (induction xs) (simp_all add: record_line_def)
  ultimately show ?thesis
    by (simp add: format_table_eq header_line_def join_empty_lines)
qed


theorem format_table_total_witness:
  "format_table example_rows [] = Inr [CHR 0x0A, CHR 0x0A]
   \<and> (\<exists>out. format_table example_rows example_cols = Inr out)"
  using format_table_total [of example_rows "[]"] format_table_total [of example_rows example_cols]
  by (simp add: numeral_2_eq_2)

end
